theory Spec2Isabelle
  imports Complex_Main "HOL-Library.Sublist"
begin

text \<open>
  The mirroring proxy of \<^verbatim>\<open>docker/sum/main.go\<close>: the selector of upstream mirrors
  (\<^verbatim>\<open>URLManager\<close>), the cache of blobs on disk (\<^verbatim>\<open>serveFromCache\<close>, the copy loop of
  \<^verbatim>\<open>proxyRequest\<close>, \<^verbatim>\<open>checkCacheFileSize\<close>) and the retry loop of \<^verbatim>\<open>proxyRequest\<close> that
  joins them. State is passed explicitly: a function that changes the manager or the cache
  directory returns the new one. A loop that may run forever is a partial function whose
  value \<open>None\<close> stands for a call that never returns. What the program takes from outside
  (random numbers, answers of the upstream, the bytes a read delivers, the hash function) is
  an argument of the functions.
\<close>

section \<open>Numbers of the program\<close>

text \<open>
  A Go \<^verbatim>\<open>float64\<close>. Finite values carry their real value, the three special values are
  kept apart, because the selector divides by a weight that may be zero and compares the
  quotient with \<^verbatim>\<open>math.MaxFloat64\<close>. Arithmetic on finite values is the exact real
  arithmetic (rounding is not represented), and there is one zero: no operation of the
  selector stores a negative zero in a weight.
\<close>

datatype f64 = Fin real | PInf | NInf | NaN

definition MaxFloat64 :: f64 where
  "MaxFloat64 = Fin ((2 ^ 53 - 1) * 2 ^ 971)"

fun f64_div :: "f64 \<Rightarrow> f64 \<Rightarrow> f64" where
  "f64_div NaN y = NaN"
| "f64_div x NaN = NaN"
| "f64_div (Fin a) (Fin b) =
     (if b = 0 then (if a = 0 then NaN else if 0 < a then PInf else NInf) else Fin (a / b))"
| "f64_div (Fin a) PInf = Fin 0"
| "f64_div (Fin a) NInf = Fin 0"
| "f64_div PInf (Fin b) = (if 0 \<le> b then PInf else NInf)"
| "f64_div NInf (Fin b) = (if 0 \<le> b then NInf else PInf)"
| "f64_div PInf PInf = NaN"
| "f64_div PInf NInf = NaN"
| "f64_div NInf PInf = NaN"
| "f64_div NInf NInf = NaN"

fun f64_mul :: "f64 \<Rightarrow> f64 \<Rightarrow> f64" where
  "f64_mul NaN y = NaN"
| "f64_mul x NaN = NaN"
| "f64_mul (Fin a) (Fin b) = Fin (a * b)"
| "f64_mul (Fin a) PInf = (if a = 0 then NaN else if 0 < a then PInf else NInf)"
| "f64_mul (Fin a) NInf = (if a = 0 then NaN else if 0 < a then NInf else PInf)"
| "f64_mul PInf (Fin b) = (if b = 0 then NaN else if 0 < b then PInf else NInf)"
| "f64_mul NInf (Fin b) = (if b = 0 then NaN else if 0 < b then NInf else PInf)"
| "f64_mul PInf PInf = PInf"
| "f64_mul PInf NInf = NInf"
| "f64_mul NInf PInf = NInf"
| "f64_mul NInf NInf = PInf"

fun f64_add :: "f64 \<Rightarrow> f64 \<Rightarrow> f64" where
  "f64_add NaN y = NaN"
| "f64_add x NaN = NaN"
| "f64_add (Fin a) (Fin b) = Fin (a + b)"
| "f64_add (Fin a) PInf = PInf"
| "f64_add (Fin a) NInf = NInf"
| "f64_add PInf (Fin b) = PInf"
| "f64_add NInf (Fin b) = NInf"
| "f64_add PInf PInf = PInf"
| "f64_add PInf NInf = NaN"
| "f64_add NInf PInf = NaN"
| "f64_add NInf NInf = NInf"

text \<open>The comparison \<^verbatim>\<open><\<close> of two floats: false as soon as one side is NaN.\<close>

fun f64_less :: "f64 \<Rightarrow> f64 \<Rightarrow> bool" where
  "f64_less NaN y = False"
| "f64_less x NaN = False"
| "f64_less (Fin a) (Fin b) = (a < b)"
| "f64_less (Fin a) PInf = True"
| "f64_less (Fin a) NInf = False"
| "f64_less PInf y = False"
| "f64_less NInf (Fin b) = True"
| "f64_less NInf PInf = True"
| "f64_less NInf NInf = False"

text \<open>
  A Go \<^verbatim>\<open>int\<close> (64 bits) is an \<open>int\<close> kept in range: \<open>wrap64\<close> is what the
  machine leaves after an addition or a subtraction.
\<close>

definition wrap64 :: "int \<Rightarrow> int" where
  "wrap64 x = (x + 2 ^ 63) mod 2 ^ 64 - 2 ^ 63"

definition float64 :: "int \<Rightarrow> f64" where
  "float64 n = Fin (real_of_int n)"

section \<open>URLManager\<close>

record URLInfo =
  URL :: string
  Dead :: bool
  Load :: int
  ResponseTime :: f64
  Weight :: f64

text \<open>
  The manager is its slice of mirrors. The random source \<^verbatim>\<open>um.rand\<close> is given to
  \<open>Get\<close> from outside, as the sequence of numbers it will draw.
\<close>

record URLManager =
  urls :: "URLInfo list"

definition NewURLManager :: URLManager where
  "NewURLManager = \<lparr>urls = []\<rparr>"

definition AddURL :: "string \<Rightarrow> URLManager \<Rightarrow> URLManager" where
  "AddURL url um =
     um\<lparr>urls := urls um @ [\<lparr>URL = url, Dead = False, Load = 0, ResponseTime = Fin 0, Weight = Fin 1\<rparr>]\<rparr>"

definition loadRatio :: "URLInfo \<Rightarrow> f64" where
  "loadRatio urlInfo = f64_div (float64 (Load urlInfo)) (Weight urlInfo)"

text \<open>
  The scan of \<open>Get\<close>: \<open>n\<close> steps from \<open>startIndex\<close>, wrapping around; the state of the
  loop is the index of \<^verbatim>\<open>selectedURL\<close> (\<open>None\<close> for nil) and \<^verbatim>\<open>minLoadRatio\<close>.
\<close>

definition scanStep :: "URLInfo list \<Rightarrow> nat \<Rightarrow> nat \<Rightarrow> nat option \<times> f64 \<Rightarrow> nat option \<times> f64" where
  "scanStep us startIndex i st =
     (let j = (startIndex + i) mod length us; urlInfo = us ! j in
      if \<not> Dead urlInfo \<and> f64_less (loadRatio urlInfo) (snd st)
      then (Some j, loadRatio urlInfo) else st)"

definition selectURL :: "URLInfo list \<Rightarrow> nat \<Rightarrow> nat option" where
  "selectURL us startIndex =
     fst (fold (scanStep us startIndex) [0..<length us] (None, MaxFloat64))"

definition resume :: "URLManager \<Rightarrow> URLManager" where
  "resume um = um\<lparr>urls := map (\<lambda>urlInfo. urlInfo\<lparr>Dead := False\<rparr>) (urls um)\<rparr>"

text \<open>
  One turn of the outer loop of \<open>Get\<close>, for a manager with at least one mirror: either a
  mirror is selected, its load goes up by one and its URL is returned, or nothing is
  selected and every mirror is resumed.
\<close>

definition Get_pass :: "nat \<Rightarrow> URLManager \<Rightarrow> string option \<times> URLManager" where
  "Get_pass startIndex um =
     (case selectURL (urls um) startIndex of
        Some j \<Rightarrow>
          (Some (URL (urls um ! j)),
           um\<lparr>urls := (urls um)[j := (urls um ! j)\<lparr>Load := wrap64 (Load (urls um ! j) + 1)\<rparr>]\<rparr>)
      | None \<Rightarrow> (None, resume um))"

text \<open>
  \<open>Get rnd t um\<close>: \<open>rnd\<close> is the sequence of raw random numbers, \<open>t\<close> the position of the
  next one; \<^verbatim>\<open>Intn(n)\<close> is \<open>rnd t mod n\<close>. The result holds the URL, the position after
  the last draw and the manager. The loop has no exit other than a selection, so \<open>Get\<close>
  is partial: \<open>None\<close> is a call that never returns.
\<close>

partial_function (option) Get :: "(nat \<Rightarrow> nat) \<Rightarrow> nat \<Rightarrow> URLManager \<Rightarrow> (string \<times> nat \<times> URLManager) option" where
  "Get rnd t um =
     (if length (urls um) = 0 then Some ('''', t, um)
      else (case Get_pass (rnd t mod length (urls um)) um of
              (Some url, um') \<Rightarrow> Some (url, Suc t, um')
            | (None, um') \<Rightarrow> Get rnd (Suc t) um'))"

text \<open>
  \<open>Done\<close> and \<open>MarkDead\<close> walk the slice and stop at the first mirror whose URL is equal
  to the argument.
\<close>

definition doneInfo :: "f64 \<Rightarrow> int \<Rightarrow> URLInfo \<Rightarrow> URLInfo" where
  "doneInfo responseTime contentLength urlInfo =
     (let load = (if 0 < Load urlInfo then wrap64 (Load urlInfo - 1) else Load urlInfo);
          beta = Fin (7 / 10);
          ratio = f64_div (float64 contentLength) responseTime;
          k = (if f64_less (Fin 1000000000) ratio then Fin 1000
               else if f64_less (Fin 1000000) ratio then Fin 100000 else Fin 1000000)
      in urlInfo\<lparr>Load := load,
           Weight := f64_add (f64_mul beta (float64 load))
                       (f64_mul (Fin (1 - 7 / 10))
                          (f64_div (f64_div (float64 contentLength) responseTime) k))\<rparr>)"

fun updateFirst :: "string \<Rightarrow> (URLInfo \<Rightarrow> URLInfo) \<Rightarrow> URLInfo list \<Rightarrow> URLInfo list" where
  "updateFirst url f [] = []"
| "updateFirst url f (urlInfo # rest) =
     (if URL urlInfo = url then f urlInfo # rest else urlInfo # updateFirst url f rest)"

definition Done :: "string \<Rightarrow> f64 \<Rightarrow> int \<Rightarrow> URLManager \<Rightarrow> URLManager" where
  "Done url responseTime contentLength um =
     um\<lparr>urls := updateFirst url (doneInfo responseTime contentLength) (urls um)\<rparr>"

definition MarkDead :: "string \<Rightarrow> URLManager \<Rightarrow> URLManager" where
  "MarkDead url um =
     um\<lparr>urls := updateFirst url (\<lambda>urlInfo. urlInfo\<lparr>Dead := True, Load := 0\<rparr>) (urls um)\<rparr>"

text \<open>
  The calls that reach a manager, one after the other. The mutexes make each of them one
  step on the mirrors it touches: a turn of the loop of \<open>Get\<close> (a call of \<open>Get\<close> is a
  sequence of turns, endless when the call never returns), a call of \<open>Done\<close>, a call of
  \<open>MarkDead\<close>. \<open>CallGet r\<close> carries the raw random number of the turn.
\<close>

datatype call = CallGet nat | CallDone string f64 int | CallMarkDead string

fun exec :: "call \<Rightarrow> URLManager \<Rightarrow> URLManager" where
  "exec (CallGet r) um =
     (if length (urls um) = 0 then um else snd (Get_pass (r mod length (urls um)) um))"
| "exec (CallDone url responseTime contentLength) um = Done url responseTime contentLength um"
| "exec (CallMarkDead url) um = MarkDead url um"

text \<open>The mirrors that \<open>main\<close> registers, in its order.\<close>

definition mirrors :: "string list" where
  "mirrors =
     [''https://yanyu.icu'', ''https://hub.rat.dev'', ''https://docker.anyhub.us.kg'',
      ''https://docker.chenby.cn'', ''https://hub.alduin.net'', ''https://docker.jsdelivr.fyi'',
      ''https://dockercf.jsdelivr.fyi'', ''https://dockertest.jsdelivr.fyi'']"

definition glourls :: URLManager where
  "glourls = fold AddURL mirrors NewURLManager"

section \<open>The cache files\<close>

text \<open>
  The directory \<^verbatim>\<open>cache\<close> is a map from file names to contents. \<^verbatim>\<open>os.Create\<close> leaves
  an empty file, a write appends to it, \<^verbatim>\<open>os.Remove\<close> deletes it, \<^verbatim>\<open>os.Open\<close> fails on
  a name that is not there. Failures of the disk itself are not represented.
\<close>

type_synonym files = "string \<rightharpoonup> string"

definition os_Create :: "string \<Rightarrow> files \<Rightarrow> files" where
  "os_Create name fs = fs(name \<mapsto> [])"

definition file_Write :: "string \<Rightarrow> string \<Rightarrow> files \<Rightarrow> files" where
  "file_Write name b fs = fs(name \<mapsto> (case fs name of None \<Rightarrow> [] | Some c \<Rightarrow> c) @ b)"

definition os_Remove :: "string \<Rightarrow> files \<Rightarrow> files" where
  "os_Remove name fs = fs(name := None)"

fun contains :: "string \<Rightarrow> string \<Rightarrow> bool" where
  "contains [] substr = (substr = [])"
| "contains (c # cs) substr = (prefix substr (c # cs) \<or> contains cs substr)"

definition shouldCache :: "string \<Rightarrow> bool" where
  "shouldCache urlPath = contains urlPath ''/blobs/sha256:''"

definition isHex :: "char \<Rightarrow> bool" where
  "isHex c = (c \<in> set ''0123456789abcdefABCDEF'')"

text \<open>
  \<^verbatim>\<open>FindStringSubmatch\<close> for \<^verbatim>\<open>sha256:([a-fA-F0-9]+)\<close>: the leftmost place where the
  marker is followed by a hexadecimal digit, and the longest run of such digits there.
\<close>

fun findSubmatch :: "string \<Rightarrow> string option" where
  "findSubmatch [] = None"
| "findSubmatch (c # cs) =
     (if prefix ''sha256:'' (c # cs) \<and> takeWhile isHex (drop 7 (c # cs)) \<noteq> []
      then Some (takeWhile isHex (drop 7 (c # cs)))
      else findSubmatch cs)"

definition lastSegment :: "string \<Rightarrow> string" where
  "lastSegment s = rev (takeWhile (\<lambda>c. c \<noteq> CHR ''/'') (rev s))"

definition extractHashFromURL :: "string \<Rightarrow> string" where
  "extractHashFromURL urlPath =
     (case findSubmatch urlPath of Some h \<Rightarrow> h | None \<Rightarrow> lastSegment urlPath)"

definition digit :: "nat \<Rightarrow> char" where
  "digit d = ''0123456789'' ! d"

fun showNat :: "nat \<Rightarrow> string" where
  "showNat n = (if n < 10 then [digit n] else showNat (n div 10) @ [digit (n mod 10)])"

definition showInt :: "int \<Rightarrow> string" where
  "showInt i = (if i < 0 then CHR ''-'' # showNat (nat (- i)) else showNat (nat i))"

definition cacheDir :: string where
  "cacheDir = ''cache''"

text \<open>
  \<^verbatim>\<open>filepath.Join\<close> of the directory and a file name. The names joined below end in
  \<^verbatim>\<open>.dat\<close> or \<^verbatim>\<open>.txt\<close> and hold no separator, so cleaning the path changes nothing.
\<close>

definition filepath_Join :: "string \<Rightarrow> string \<Rightarrow> string" where
  "filepath_Join dir name = dir @ ''/'' @ name"

definition getCacheFilePath :: "string \<Rightarrow> string" where
  "getCacheFilePath urlPath = filepath_Join cacheDir (extractHashFromURL urlPath @ ''.dat'')"

definition getCacheFilePathWithPart :: "string \<Rightarrow> int \<Rightarrow> string" where
  "getCacheFilePathWithPart urlPath part =
     filepath_Join cacheDir (extractHashFromURL urlPath @ ''_part_'' @ showInt part @ ''.dat'')"

definition getRecordFilePath :: "string \<Rightarrow> string" where
  "getRecordFilePath urlPath = filepath_Join cacheDir (extractHashFromURL urlPath @ ''_record.txt'')"

subsection \<open>Writing: the copy loop of \<open>proxyRequest\<close>\<close>

definition chunkSize :: int where
  "chunkSize = 100 * 1024 * 1024"

text \<open>
  The variables of the copy loop: the directory, the open cache file (its name, \<open>None\<close>
  for nil), \<^verbatim>\<open>cacheFilePath\<close>, \<^verbatim>\<open>part\<close>, \<^verbatim>\<open>totalReadSize\<close>, and the bytes written to the
  client so far.
\<close>

record copy =
  disk :: files
  cacheFile :: "string option"
  cacheFilePath :: string
  part :: int
  totalReadSize :: int
  written :: string

text \<open>
  The body of the copy loop for one read of \<open>n > 0\<close> bytes \<open>b = buf[:n]\<close>, when creating
  the file and writing to the client succeed.
\<close>

definition copyChunk :: "string \<Rightarrow> bool \<Rightarrow> string \<Rightarrow> copy \<Rightarrow> copy" where
  "copyChunk urlPath split b st =
     (let st2 =
        (if shouldCache urlPath then
           (if split then
              (let st1 =
                 (if cacheFile st = None \<or> totalReadSize st + int (length b) > chunkSize then
                    (let st0 = (if cacheFile st \<noteq> None then st\<lparr>totalReadSize := 0\<rparr> else st);
                         name = getCacheFilePathWithPart urlPath (part st0)
                     in st0\<lparr>cacheFilePath := name, disk := os_Create name (disk st0),
                           cacheFile := Some name, part := part st0 + 1\<rparr>)
                  else st)
               in (case cacheFile st1 of
                     None \<Rightarrow> st1
                   | Some name \<Rightarrow>
                       st1\<lparr>disk := file_Write name b (disk st1),
                           totalReadSize := totalReadSize st1 + int (length b)\<rparr>))
            else
              (let st1 =
                 (if cacheFile st = None
                  then st\<lparr>disk := os_Create (cacheFilePath st) (disk st),
                         cacheFile := Some (cacheFilePath st)\<rparr>
                  else st)
               in (case cacheFile st1 of
                     None \<Rightarrow> st1
                   | Some name \<Rightarrow> st1\<lparr>disk := file_Write name b (disk st1)\<rparr>)))
         else st)
      in st2\<lparr>written := written st2 @ b\<rparr>)"

text \<open>The reads of the body up to \<^verbatim>\<open>io.EOF\<close>; a read of no bytes does nothing.\<close>

fun copyLoop :: "string \<Rightarrow> bool \<Rightarrow> string list \<Rightarrow> copy \<Rightarrow> copy" where
  "copyLoop urlPath split [] st = st"
| "copyLoop urlPath split (b # reads) st =
     copyLoop urlPath split reads (if b \<noteq> [] then copyChunk urlPath split b st else st)"

definition newline :: string where
  "newline = [CHR 0x0A]"

definition recordText :: "int \<Rightarrow> int \<Rightarrow> string" where
  "recordText partCount totalSize =
     ''Parts: '' @ showInt partCount @ newline @ ''TotalSize: '' @ showInt totalSize @ newline"

definition writeRecord :: "string \<Rightarrow> bool \<Rightarrow> copy \<Rightarrow> copy" where
  "writeRecord urlPath split st =
     (if shouldCache urlPath \<and> split
      then st\<lparr>disk := file_Write (getRecordFilePath urlPath)
                          (recordText (part st) (totalReadSize st))
                          (os_Create (getRecordFilePath urlPath) (disk st))\<rparr>
      else st)"

text \<open>
  From the response headers to the record file: \<open>urlPath\<close> is the path of the request,
  \<open>contentLength\<close> is \<^verbatim>\<open>resp.ContentLength\<close>, \<open>reads\<close> the body as the reads deliver it.
\<close>

definition streamBody :: "string \<Rightarrow> int \<Rightarrow> string list \<Rightarrow> files \<Rightarrow> copy" where
  "streamBody urlPath contentLength reads fs =
     (let split = (contentLength > 100 * 1024 * 1024) in
      writeRecord urlPath split
        (copyLoop urlPath split reads
           \<lparr>disk = fs, cacheFile = None, cacheFilePath = getCacheFilePath urlPath,
            part = 0, totalReadSize = 0, written = []\<rparr>))"

subsection \<open>Reading: \<open>serveFromCache\<close>\<close>

definition isDigit :: "char \<Rightarrow> bool" where
  "isDigit c = (c \<in> set ''0123456789'')"

definition natOfDigits :: "string \<Rightarrow> nat" where
  "natOfDigits ds = foldl (\<lambda>a c. 10 * a + (of_char c - 48)) 0 ds"

definition stripPrefix :: "string \<Rightarrow> string \<Rightarrow> string option" where
  "stripPrefix p s = (if prefix p s then Some (drop (length p) s) else None)"

text \<open>
  \<^verbatim>\<open>fmt.Fscanf\<close> with the format of the record file, on a text such as \<open>recordText\<close>
  writes: the literal text, then an unsigned decimal number, twice. The scan stops where
  the text does not fit, and what was not scanned keeps its zero. (Signs and the optional
  spaces that \<^verbatim>\<open>Fscanf\<close> accepts are not represented.)
\<close>

definition Fscanf_record :: "string \<Rightarrow> int \<times> int" where
  "Fscanf_record s =
     (case stripPrefix ''Parts: '' s of
        None \<Rightarrow> (0, 0)
      | Some s1 \<Rightarrow>
          if takeWhile isDigit s1 = [] then (0, 0)
          else (let partCount = int (natOfDigits (takeWhile isDigit s1)) in
                case stripPrefix (newline @ ''TotalSize: '') (dropWhile isDigit s1) of
                  None \<Rightarrow> (partCount, 0)
                | Some s2 \<Rightarrow>
                    if takeWhile isDigit s2 = [] then (partCount, 0)
                    else (partCount, int (natOfDigits (takeWhile isDigit s2)))))"

text \<open>
  The loop over the parts: \<open>k\<close> parts are still to come, \<open>partIndex\<close> is the next index
  (\<^verbatim>\<open>part\<close>), \<open>out\<close> is what has been copied to the client; \<open>filePath\<close> is the
  parameter \<^verbatim>\<open>cacheFilePath\<close>.
\<close>

fun serveParts :: "files \<Rightarrow> string \<Rightarrow> nat \<Rightarrow> int \<Rightarrow> string \<Rightarrow> string \<times> bool" where
  "serveParts fs filePath 0 partIndex out = (out, True)"
| "serveParts fs filePath (Suc k) partIndex out =
     (case fs (getCacheFilePathWithPart filePath partIndex) of
        None \<Rightarrow> (out, False)
      | Some c \<Rightarrow> serveParts fs filePath k (partIndex + 1) (out @ c))"

text \<open>\<open>serveFromCache\<close> returns the bytes it has copied to the client and its result.\<close>

definition serveFromCache :: "files \<Rightarrow> string \<Rightarrow> string \<times> bool" where
  "serveFromCache fs filePath =
     (case fs (getRecordFilePath filePath) of
        None \<Rightarrow> (case fs filePath of None \<Rightarrow> ([], False) | Some c \<Rightarrow> (c, True))
      | Some record \<Rightarrow>
          serveParts fs filePath (nat (fst (Fscanf_record record))) 0 [])"

subsection \<open>Verifying: \<open>checkCacheFileSize\<close>\<close>

text \<open>\<^verbatim>\<open>strconv.ParseInt(s, 10, 64)\<close>: \<open>None\<close> is an error.\<close>

definition ParseInt :: "string \<Rightarrow> int option" where
  "ParseInt s =
     (let neg = (s \<noteq> [] \<and> hd s = CHR ''-'');
          ds = (if s \<noteq> [] \<and> (hd s = CHR ''-'' \<or> hd s = CHR ''+'') then tl s else s);
          v = (if neg then - int (natOfDigits ds) else int (natOfDigits ds))
      in if ds = [] \<or> \<not> list_all isDigit ds then None
         else if - (2 ^ 63) \<le> v \<and> v < 2 ^ 63 then Some v else None)"

fun readParts :: "files \<Rightarrow> string \<Rightarrow> nat \<Rightarrow> int \<Rightarrow> string \<Rightarrow> string option" where
  "readParts fs filePath 0 partIndex reader = Some reader"
| "readParts fs filePath (Suc k) partIndex reader =
     (case fs (getCacheFilePathWithPart filePath partIndex) of
        None \<Rightarrow> None
      | Some content \<Rightarrow> readParts fs filePath k (partIndex + 1) (reader @ content))"

fun removeParts :: "string \<Rightarrow> nat \<Rightarrow> int \<Rightarrow> files \<Rightarrow> files" where
  "removeParts filePath 0 partIndex fs = fs"
| "removeParts filePath (Suc k) partIndex fs =
     removeParts filePath k (partIndex + 1) (os_Remove (getCacheFilePathWithPart filePath partIndex) fs)"

text \<open>
  \<open>sha\<close> is the hash as the code prints it: \<^verbatim>\<open>fmt.Sprintf("%x", sha)\<close> of the SHA-256 of
  the bytes. The function is the hash of the Go library and stays a parameter.
\<close>

definition checkCacheFileSize :: "(string \<Rightarrow> string) \<Rightarrow> string \<Rightarrow> string \<Rightarrow> files \<Rightarrow> files" where
  "checkCacheFileSize sha url contentLengthStr fs =
     (if contentLengthStr = [] then fs
      else (case ParseInt contentLengthStr of
              None \<Rightarrow> fs
            | Some contentLength \<Rightarrow>
                (let filePath = getCacheFilePath url;
                     recordFilePath = getRecordFilePath filePath
                 in (case fs recordFilePath of
                       None \<Rightarrow>
                         (case fs filePath of
                            None \<Rightarrow> fs
                          | Some buf \<Rightarrow>
                              if sha buf \<noteq> extractHashFromURL url
                              then os_Remove filePath fs else fs)
                     | Some record \<Rightarrow>
                         (let partCount = nat (fst (Fscanf_record record)) in
                          case readParts fs filePath partCount 0 [] of
                            None \<Rightarrow> fs
                          | Some content \<Rightarrow>
                              if sha content \<noteq> extractHashFromURL url
                              then os_Remove recordFilePath (removeParts filePath partCount 0 fs)
                              else fs)))))"

section \<open>The forwarder\<close>

text \<open>
  A \<^verbatim>\<open>url.URL\<close> with the fields the forwarder uses. \<open>url_Parse\<close> reads a mirror URL of the
  form \<^verbatim>\<open>scheme://host\<close>, with an optional path and query behind the host; this is the
  form of every mirror of \<open>main\<close>. (User information, fragments and opaque URLs are not
  represented, and the scheme is taken as it is written.)
\<close>

record url =
  Scheme :: string
  Host :: string
  Path :: string
  RawQuery :: string

definition url_Parse :: "string \<Rightarrow> url" where
  "url_Parse s =
     (let scheme = takeWhile (\<lambda>c. c \<noteq> CHR '':'') s;
          rest = drop (length scheme + 3) s;
          host = takeWhile (\<lambda>c. c \<noteq> CHR ''/'' \<and> c \<noteq> CHR ''?'') rest;
          rest2 = dropWhile (\<lambda>c. c \<noteq> CHR ''/'' \<and> c \<noteq> CHR ''?'') rest
      in \<lparr>Scheme = scheme, Host = host,
          Path = takeWhile (\<lambda>c. c \<noteq> CHR ''?'') rest2,
          RawQuery = drop 1 (dropWhile (\<lambda>c. c \<noteq> CHR ''?'') rest2)\<rparr>)"

text \<open>
  \<^verbatim>\<open>URL.String()\<close>: the path is escaped as \<^verbatim>\<open>EscapedPath\<close> does when no raw path is
  set: letters, digits and \<^verbatim>\<open>-_.~$&+,/:;=@\<close> stay, any other byte becomes \<^verbatim>\<open>%XX\<close>.
\<close>

definition shouldEscape :: "char \<Rightarrow> bool" where
  "shouldEscape c =
     (c \<notin> set ''abcdefghijklmnopqrstuvwxyzABCDEFGHIJKLMNOPQRSTUVWXYZ0123456789-_.~$&+,/:;=@'')"

definition upperhex :: "nat \<Rightarrow> char" where
  "upperhex d = ''0123456789ABCDEF'' ! (d mod 16)"

definition escape :: "string \<Rightarrow> string" where
  "escape s =
     concat (map (\<lambda>c. if shouldEscape c
                        then [CHR ''%'', upperhex (of_char c div 16), upperhex (of_char c mod 16)]
                        else [c]) s)"

definition EscapedPath :: "url \<Rightarrow> string" where
  "EscapedPath u = (if Path u = ''*'' then ''*'' else escape (Path u))"

definition URL_String :: "url \<Rightarrow> string" where
  "URL_String u =
     (if Scheme u \<noteq> [] then Scheme u @ '':'' else []) @
     (if Scheme u \<noteq> [] \<or> Host u \<noteq> []
      then (if Host u \<noteq> [] \<or> Path u \<noteq> [] then ''//'' else []) @ Host u else []) @
     (if EscapedPath u \<noteq> [] \<and> hd (EscapedPath u) \<noteq> CHR ''/'' \<and> Host u \<noteq> [] then ''/'' else []) @
     EscapedPath u @
     (if RawQuery u \<noteq> [] then ''?'' @ RawQuery u else [])"

text \<open>
  What \<^verbatim>\<open>client.Do\<close> gives: an error, or a response with its status code, its
  \<^verbatim>\<open>ContentLength\<close> and the reads of its body. The upstream is a function from the number
  of the attempt and the URL requested to the elapsed seconds and the outcome.
\<close>

datatype outcome = TransportError | Response nat int "string list"

type_synonym upstream = "nat \<Rightarrow> string \<Rightarrow> f64 \<times> outcome"

datatype verdict = ServedFromCache | NoAvailableURLs | OutOfTickets | Forwarded nat

text \<open>
  The state of the retry loop of \<open>proxyRequest\<close>: \<^verbatim>\<open>tickets\<close>, the number of deferred
  calls waiting for the function to return (each of them is \<^verbatim>\<open>tickets++\<close>), the number
  of upstream requests sent, the position in the random numbers, the manager and the
  cache directory.
\<close>

record retry =
  tickets :: nat
  deferred :: nat
  attempts :: nat
  drawn :: nat
  manager :: URLManager
  cache :: files

text \<open>
  One turn of the retry loop after the test of \<^verbatim>\<open>tickets\<close>. The result is \<open>None\<close> when
  \<open>Get\<close> never returns; otherwise it holds \<open>None\<close> for \<^verbatim>\<open>continue\<close> or the verdict the
  function returns with, and the state.
\<close>

definition attempt :: "upstream \<Rightarrow> url \<Rightarrow> (nat \<Rightarrow> nat) \<Rightarrow> retry \<Rightarrow> (verdict option \<times> retry) option" where
  "attempt up rURL rnd st =
     (case Get rnd (drawn st) (manager st) of
        None \<Rightarrow> None
      | Some (targetURL, t, um) \<Rightarrow>
          if targetURL = [] then Some (Some NoAvailableURLs, st\<lparr>drawn := t, manager := um\<rparr>)
          else
            (let proxyURL = (url_Parse targetURL)\<lparr>Path := Path rURL, RawQuery := RawQuery rURL\<rparr>
             in (case up (attempts st) (URL_String proxyURL) of
                   (responseTime, TransportError) \<Rightarrow>
                     Some (None, st\<lparr>attempts := Suc (attempts st), drawn := t, manager := um\<rparr>)
                 | (responseTime, Response status contentLength body) \<Rightarrow>
                     (let um1 = Done (URL_String proxyURL) responseTime contentLength um in
                      if status = 404
                      then Some (None, st\<lparr>attempts := Suc (attempts st), drawn := t,
                                          manager := MarkDead (URL_String proxyURL) um1\<rparr>)
                      else Some (Some (Forwarded status),
                                 st\<lparr>attempts := Suc (attempts st), drawn := t, manager := um1,
                                    cache := disk (streamBody (Path proxyURL) contentLength body (cache st))\<rparr>)))))"

text \<open>
  The retry loop. \<^verbatim>\<open>defer func() { tickets++ }()\<close> at the head of the body adds a deferred
  call and leaves \<^verbatim>\<open>tickets\<close> as it is until the function returns.
\<close>

partial_function (option) retryLoop :: "upstream \<Rightarrow> url \<Rightarrow> (nat \<Rightarrow> nat) \<Rightarrow> retry \<Rightarrow> (verdict \<times> retry) option" where
  "retryLoop up rURL rnd st =
     (if tickets st \<ge> 6 then Some (OutOfTickets, st\<lparr>deferred := Suc (deferred st)\<rparr>)
      else (case attempt up rURL rnd (st\<lparr>deferred := Suc (deferred st)\<rparr>) of
              None \<Rightarrow> None
            | Some (None, st') \<Rightarrow> retryLoop up rURL rnd st'
            | Some (Some v, st') \<Rightarrow> Some (v, st')))"

text \<open>
  \<open>proxyRequest\<close> for the request URL \<open>rURL\<close>, from position \<open>t\<close> in the random numbers,
  the manager \<open>um\<close> and the cache directory \<open>fs\<close>. When the function returns, the deferred
  calls run.
\<close>

definition proxyRequest :: "upstream \<Rightarrow> url \<Rightarrow> (nat \<Rightarrow> nat) \<Rightarrow> nat \<Rightarrow> URLManager \<Rightarrow> files \<Rightarrow> (verdict \<times> retry) option" where
  "proxyRequest up rURL rnd t um fs =
     (if shouldCache (Path rURL) \<and> snd (serveFromCache fs (getCacheFilePath (Path rURL)))
      then Some (ServedFromCache,
                 \<lparr>tickets = 0, deferred = 0, attempts = 0, drawn = t, manager = um, cache = fs\<rparr>)
      else (case retryLoop up rURL rnd
                   \<lparr>tickets = 0, deferred = 0, attempts = 0, drawn = t, manager = um, cache = fs\<rparr> of
              None \<Rightarrow> None
            | Some (v, st) \<Rightarrow> Some (v, st\<lparr>tickets := tickets st + deferred st, deferred := 0\<rparr>)))"

section \<open>Predicates and sample states of the proofs\<close>

text \<open>Every load is between zero and \<open>b\<close>.\<close>

definition loads_within :: "int \<Rightarrow> URLManager \<Rightarrow> bool" where
  "loads_within b um = (\<forall>m \<in> set (urls um). 0 \<le> Load m \<and> Load m \<le> b)"

text \<open>The manager in \<open>y\<close> is reached from \<open>um\<close> by turns of the loop of \<open>Get\<close>.\<close>

definition turns_of :: "nat \<Rightarrow> URLManager \<Rightarrow> string \<times> nat \<times> URLManager \<Rightarrow> bool" where
  "turns_of t um y = (\<exists>rs. snd (snd y) = fold exec (map CallGet rs) um \<and> fst (snd y) = t + length rs)"

text \<open>
  A random source that always draws zero, the first mirror of \<open>main\<close>, and three states of
  a manager that holds this mirror alone.
\<close>

definition rnd0 :: "nat \<Rightarrow> nat" where
  "rnd0 = (\<lambda>t. 0)"

definition mirror0 :: string where
  "mirror0 = ''https://yanyu.icu''"




text \<open>
  A mirror URL of \<open>main\<close> is a scheme and a host. \<open>proxied targetURL rURL\<close> is the string
  that \<open>attempt\<close> passes to \<open>Done\<close> and \<open>MarkDead\<close>; \<open>slashes\<close> counts the slashes of a
  string, and \<open>pristine regs n um\<close> says that the manager holds the mirrors \<open>regs\<close>, all alive
  and of weight one, with loads from zero up that add up to \<open>n\<close>.
\<close>

definition baseURL :: "string \<Rightarrow> string \<Rightarrow> string" where
  "baseURL scheme host = scheme @ ''://'' @ host"

definition wf_base :: "string \<times> string \<Rightarrow> bool" where
  "wf_base b =
     (fst b \<noteq> [] \<and> snd b \<noteq> [] \<and> CHR '':'' \<notin> set (fst b) \<and> CHR ''/'' \<notin> set (fst b) \<and>
      CHR ''/'' \<notin> set (snd b) \<and> CHR ''?'' \<notin> set (snd b))"

definition proxied :: "string \<Rightarrow> url \<Rightarrow> string" where
  "proxied targetURL rURL =
     URL_String ((url_Parse targetURL)\<lparr>Path := Path rURL, RawQuery := RawQuery rURL\<rparr>)"

definition slashes :: "string \<Rightarrow> nat" where
  "slashes s = length (filter (\<lambda>c. c = CHR ''/'') s)"

definition pristine :: "string list \<Rightarrow> int \<Rightarrow> URLManager \<Rightarrow> bool" where
  "pristine regs n um =
     (map URL (urls um) = regs \<and>
      (\<forall>m \<in> set (urls um). \<not> Dead m \<and> Weight m = Fin 1 \<and> 0 \<le> Load m) \<and>
      sum_list (map Load (urls um)) = n)"

text \<open>
  Turns of the retry loop, of any requests in any order: each element is the URL of the
  request that takes the turn, and the elapsed seconds and outcome of its upstream request.
\<close>

fun run_attempts :: "(nat \<Rightarrow> nat) \<Rightarrow> (url \<times> f64 \<times> outcome) list \<Rightarrow> retry \<Rightarrow> retry option" where
  "run_attempts rnd [] st = Some st"
| "run_attempts rnd ((rURL, responseTime, oc) # xs) st =
     (case attempt (\<lambda>i u. (responseTime, oc)) rURL rnd st of
        None \<Rightarrow> None
      | Some (v, st') \<Rightarrow> run_attempts rnd xs st')"

text \<open>
  Sample inputs: a request for \<^verbatim>\<open>/v2/\<close>, an upstream whose first \<open>k\<close> attempts fail in
  transport, an upstream that fails in transport, then answers 404, then 200, the manager
  of \<open>main\<close> with given loads, and the mirrors of \<open>main\<close> as schemes and hosts.
\<close>

definition rootURL :: url where
  "rootURL = \<lparr>Scheme = [], Host = [], Path = ''/v2/'', RawQuery = []\<rparr>"

definition failing :: "nat \<Rightarrow> upstream" where
  "failing k = (\<lambda>i u. if i < k then (Fin 1, TransportError) else (Fin 1, Response 200 0 []))"

definition unlucky :: upstream where
  "unlucky = (\<lambda>i u. if i = 0 then (Fin 1, TransportError)
                     else if i = 1 then (Fin 1, Response 404 0 [])
                     else (Fin 1, Response 200 0 []))"

definition loaded :: "int list \<Rightarrow> URLManager" where
  "loaded ls =
     \<lparr>urls = map (\<lambda>(u, l). \<lparr>URL = u, Dead = False, Load = l, ResponseTime = Fin 0, Weight = Fin 1\<rparr>)
                 (zip mirrors ls)\<rparr>"

definition mirror_bases :: "(string \<times> string) list" where
  "mirror_bases =
     [(''https'', ''yanyu.icu''), (''https'', ''hub.rat.dev''), (''https'', ''docker.anyhub.us.kg''),
      (''https'', ''docker.chenby.cn''), (''https'', ''hub.alduin.net''), (''https'', ''docker.jsdelivr.fyi''),
      (''https'', ''dockercf.jsdelivr.fyi''), (''https'', ''dockertest.jsdelivr.fyi'')]"


definition part_handle :: "string \<Rightarrow> copy \<Rightarrow> bool" where
  "part_handle urlPath st =
     (case cacheFile st of None \<Rightarrow> True
      | Some name \<Rightarrow> (\<exists>i. name = getCacheFilePathWithPart urlPath i))"

text \<open>
  Sample inputs: the path of a blob request, and three directories for its key: a flat
  entry, a split entry of two parts as the reader names them, and the same without its
  second part.
\<close>

definition blobPath :: string where
  "blobPath = ''/v2/library/nginx/blobs/sha256:abc''"

definition fs_flat :: files where
  "fs_flat = [''cache/abc.dat'' \<mapsto> ''hello'']"



section \<open>Properties of the selector\<close>

lemmas selector_defs = AddURL_def NewURLManager_def Get_pass_def selectURL_def scanStep_def
  loadRatio_def float64_def MaxFloat64_def wrap64_def resume_def Done_def doneInfo_def MarkDead_def

lemma wrap64_id: "- (2 ^ 63) \<le> x \<Longrightarrow> x < 2 ^ 63 \<Longrightarrow> wrap64 x = x"
  unfolding wrap64_def by (simp add: mod_pos_pos_trivial)

lemma scan_index:
  "us \<noteq> [] \<Longrightarrow> (\<forall>j. fst st = Some j \<longrightarrow> j < length us) \<Longrightarrow>
   fst (fold (scanStep us s) ixs st) = Some k \<Longrightarrow> k < length us"
proof (induction ixs arbitrary: st)
  case Nil
  then show ?case by simp
next
  case (Cons i ixs)
  have "\<forall>j. fst (scanStep us s i st) = Some j \<longrightarrow> j < length us"
    using Cons.prems(1,2) by (auto simp: scanStep_def Let_def split: if_splits)
  with Cons.IH [OF Cons.prems(1) _ ] Cons.prems(3) show ?case by simp
qed

lemma selectURL_index: "selectURL us s = Some j \<Longrightarrow> j < length us"
proof (cases "us = []")
  case True
  assume "selectURL us s = Some j"
  with True show ?thesis by (simp add: selectURL_def)
next
  case False
  assume "selectURL us s = Some j"
  then show ?thesis using scan_index [OF False, of "(None, MaxFloat64)" s "[0..<length us]" j]
    by (simp add: selectURL_def)
qed


lemma set_updateFirst:
  "m \<in> set (updateFirst url f us) \<Longrightarrow> m \<in> set us \<or> (\<exists>m0 \<in> set us. m = f m0)"
  by (induction us) (auto split: if_splits)

lemma loads_within_Done:
  assumes "loads_within b um" "b < 2 ^ 63"
  shows "loads_within b (Done url rt cl um)"
  unfolding loads_within_def
proof
  fix m assume "m \<in> set (urls (Done url rt cl um))"
  then consider "m \<in> set (urls um)" | m0 where "m0 \<in> set (urls um)" "m = doneInfo rt cl m0"
    using set_updateFirst by (fastforce simp: Done_def)
  then show "0 \<le> Load m \<and> Load m \<le> b"
  proof cases
    case 1 then show ?thesis using assms by (simp add: loads_within_def)
  next
    case 2
    then have "0 \<le> Load m0" "Load m0 \<le> b" using assms by (simp_all add: loads_within_def)
    then show ?thesis using 2 assms(2) by (auto simp: doneInfo_def Let_def wrap64_id)
  qed
qed

lemma loads_within_MarkDead:
  assumes "loads_within b um" "0 \<le> b"
  shows "loads_within b (MarkDead url um)"
  unfolding loads_within_def
proof
  fix m assume "m \<in> set (urls (MarkDead url um))"
  then consider "m \<in> set (urls um)" | m0 where "m0 \<in> set (urls um)" "m = m0\<lparr>Dead := True, Load := 0\<rparr>"
    using set_updateFirst by (fastforce simp: MarkDead_def)
  then show "0 \<le> Load m \<and> Load m \<le> b"
    using assms by cases (simp_all add: loads_within_def)
qed

lemma loads_within_resume: "loads_within b um \<Longrightarrow> loads_within b (resume um)"
  by (auto simp: loads_within_def resume_def)

lemma loads_within_Get_pass:
  assumes "loads_within b um" "b + 1 < 2 ^ 63"
  shows "loads_within (b + 1) (snd (Get_pass s um))"
proof (cases "selectURL (urls um) s")
  case None
  then show ?thesis using loads_within_resume [OF assms(1)]
    by (auto simp: Get_pass_def loads_within_def)
next
  case (Some j)
  then have j: "j < length (urls um)" by (rule selectURL_index)
  then have lj: "0 \<le> Load (urls um ! j)" "Load (urls um ! j) \<le> b"
    using assms(1) by (simp_all add: loads_within_def)
  show ?thesis unfolding loads_within_def
  proof
    fix m assume "m \<in> set (urls (snd (Get_pass s um)))"
    then have "m \<in> set (urls um) \<or> m = (urls um ! j)\<lparr>Load := wrap64 (Load (urls um ! j) + 1)\<rparr>"
      using Some j by (auto simp: Get_pass_def dest: set_update_subset_insert [THEN subsetD])
    then show "0 \<le> Load m \<and> Load m \<le> b + 1"
      using lj assms by (auto simp: loads_within_def wrap64_id)
  qed
qed

lemma loads_within_exec:
  assumes "loads_within b um" "0 \<le> b" "b + 1 < 2 ^ 63"
  shows "loads_within (b + 1) (exec c um)"
proof (cases c)
  case (CallGet r)
  then show ?thesis using loads_within_Get_pass [OF assms(1,3)] assms(1)
    by (auto simp: loads_within_def)
next
  case (CallDone url rt cl)
  then show ?thesis using loads_within_Done [OF assms(1), of url rt cl] assms(3)
    by (auto simp: loads_within_def)
next
  case (CallMarkDead url)
  then show ?thesis using loads_within_MarkDead [OF assms(1,2), of url]
    by (auto simp: loads_within_def)
qed

lemma loads_within_fold:
  "loads_within b um \<Longrightarrow> 0 \<le> b \<Longrightarrow> b + int (length cs) < 2 ^ 63 \<Longrightarrow>
   loads_within (b + int (length cs)) (fold exec cs um)"
proof (induction cs arbitrary: b um)
  case Nil
  then show ?case by simp
next
  case (Cons c cs)
  have "loads_within (b + 1) (exec c um)"
    using loads_within_exec [OF Cons.prems(1,2)] Cons.prems(3) by simp
  from Cons.IH [OF this] Cons.prems(2,3) show ?case by (simp add: add.assoc)
qed

lemma urls_registered:
  "urls (fold AddURL us um) = urls um @ map (\<lambda>u. \<lparr>URL = u, Dead = False, Load = 0, ResponseTime = Fin 0, Weight = Fin 1\<rparr>) us"
  by (induction us arbitrary: um) (simp_all add: AddURL_def)

text \<open>
  Claim C9. Start from the manager that holds the registered mirrors and let any sequence of
  calls reach it: turns of \<open>Get\<close>, calls of \<open>Done\<close> and calls of \<open>MarkDead\<close>, in any order
  and with any arguments. Then the load of every mirror is at least zero. The sequence is
  shorter than \<open>2^63\<close> calls, the number of increments a 64-bit load can count.
\<close>

theorem load_never_negative:
  assumes "length cs < 2 ^ 63"
      and "m \<in> set (urls (fold exec cs (fold AddURL us NewURLManager)))"
  shows "0 \<le> Load m"
proof -
  have "loads_within 0 (fold AddURL us NewURLManager)"
    by (auto simp: loads_within_def urls_registered NewURLManager_def)
  moreover have "0 + int (length cs) < 2 ^ 63" using assms(1) by simp 
  ultimately have "loads_within (0 + int (length cs)) (fold exec cs (fold AddURL us NewURLManager))"
    by (intro loads_within_fold) simp_all
  then show ?thesis using assms(2) by (simp add: loads_within_def)
qed

theorem load_never_negative_witness:
  "length [CallGet 0, CallDone mirror0 (Fin 1) 0, CallDone mirror0 (Fin 1) 0, CallMarkDead mirror0, CallGet 5] < 2 ^ 63
   \<and> \<lparr>URL = mirror0, Dead = False, Load = 0, ResponseTime = Fin 0, Weight = Fin 0\<rparr>
       \<in> set (urls (fold exec [CallGet 0, CallDone mirror0 (Fin 1) 0, CallDone mirror0 (Fin 1) 0, CallMarkDead mirror0, CallGet 5]
                      (fold AddURL [mirror0] NewURLManager)))
   \<and> 0 \<le> Load \<lparr>URL = mirror0, Dead = False, Load = 0, ResponseTime = Fin 0, Weight = Fin 0\<rparr>"
proof -
  let ?cs = "[CallGet 0, CallDone mirror0 (Fin 1) 0, CallDone mirror0 (Fin 1) 0, CallMarkDead mirror0, CallGet 5]"
  let ?m = "\<lparr>URL = mirror0, Dead = False, Load = 0, ResponseTime = Fin 0, Weight = Fin 0\<rparr>"
  have h1: "length ?cs < 2 ^ 63" by simp
  have h2: "?m \<in> set (urls (fold exec ?cs (fold AddURL [mirror0] NewURLManager)))"
    by (simp add: selector_defs)
  from load_never_negative [OF h1 h2] h1 h2 show ?thesis by blast
qed

lemma Get_turns_step:
  assumes IH: "\<And>rnd t um y. G rnd t um = Some y \<Longrightarrow> turns_of t um y"
      and eq: "(if length (urls um) = 0 then Some ('''', t, um)
        else case Get_pass (rnd t mod length (urls um)) um of
             (None, um') \<Rightarrow> G rnd (Suc t) um'
             | (Some url, um') \<Rightarrow> Some (url, Suc t, um')) = Some y"
  shows "turns_of t um y"
proof (cases "length (urls um) = 0")
  case True
  with eq have "y = ('''', t, um)" by auto
  then show ?thesis unfolding turns_of_def by (intro exI [of _ "[]"]) simp
next
  case False
  obtain r um1 where gp: "Get_pass (rnd t mod length (urls um)) um = (r, um1)"
    by (cases "Get_pass (rnd t mod length (urls um)) um")
  have e: "exec (CallGet (rnd t)) um = um1" using False gp by simp
  show ?thesis
  proof (cases r)
    case None
    with eq False gp have "G rnd (Suc t) um1 = Some y" by simp
    from IH [OF this] obtain rs where "snd (snd y) = fold exec (map CallGet rs) um1" "fst (snd y) = Suc t + length rs"
      unfolding turns_of_def by blast
    then show ?thesis unfolding turns_of_def using e by (intro exI [of _ "rnd t # rs"]) simp
  next
    case (Some url)
    with eq False gp have "y = (url, Suc t, um1)" by auto
    then show ?thesis unfolding turns_of_def using e by (intro exI [of _ "[rnd t]"]) simp
  qed
qed

lemma Get_turns: "Get rnd t um = Some y \<Longrightarrow> turns_of t um y"
  by (rule Get.raw_induct [where P = "\<lambda>rnd t um y. turns_of t um y"]) (rule Get_turns_step)


lemma updateFirst_none: "url \<notin> URL ` set us \<Longrightarrow> updateFirst url f us = us"
  by (induction us) auto



lemma scanStep_cases: "scanStep us s i st = st \<or> (\<exists>j r. scanStep us s i st = (Some j, r))"
  by (simp add: scanStep_def Let_def)

lemma scan_keeps_Some: "fst st \<noteq> None \<Longrightarrow> fst (fold (scanStep us s) ixs st) \<noteq> None"
proof (induction ixs arbitrary: st)
  case Nil then show ?case by simp
next
  case (Cons i ixs)
  have "fst (scanStep us s i st) \<noteq> None"
    using scanStep_cases [of us s i st] Cons.prems by auto
  then show ?case using Cons.IH by simp
qed

lemma scan_finds:
  assumes "fst st = None \<longrightarrow> snd st = MaxFloat64"
      and "i \<in> set ixs"
      and "\<not> Dead (us ! ((s + i) mod length us))"
      and "f64_less (loadRatio (us ! ((s + i) mod length us))) MaxFloat64"
  shows "fst (fold (scanStep us s) ixs st) \<noteq> None"
  using assms(1,2)
proof (induction ixs arbitrary: st)
  case Nil then show ?case by simp
next
  case (Cons a ixs)
  show ?case
  proof (cases "fst st")
    case (Some j)
    then have "fst (scanStep us s a st) \<noteq> None"
      using scanStep_cases [of us s a st] by auto
    then show ?thesis using scan_keeps_Some by simp
  next
    case None
    then have m: "snd st = MaxFloat64" using Cons.prems(1) by simp
    show ?thesis
    proof (cases "a = i")
      case True
      then have "fst (scanStep us s a st) \<noteq> None"
        using assms(3,4) m by (simp add: scanStep_def Let_def)
      then show ?thesis using scan_keeps_Some by simp
    next
      case False
      then have "i \<in> set ixs" using Cons.prems(2) by simp
      moreover have "fst (scanStep us s a st) = None \<longrightarrow> snd (scanStep us s a st) = MaxFloat64"
        using scanStep_cases [of us s a st] Cons.prems(1) by auto
      ultimately show ?thesis using Cons.IH by simp
    qed
  qed
qed

lemma wrap_index:
  assumes "j < (n::nat)"
  shows "(j + n - s mod n) mod n < n \<and> (s + (j + n - s mod n) mod n) mod n = j"
proof -
  have n: "0 < n" using assms by simp
  then have sm: "s mod n < n" by simp
  have "(s + (j + n - s mod n) mod n) mod n = (s mod n + (j + n - s mod n)) mod n"
    by (simp add: mod_simps)
  also have "s mod n + (j + n - s mod n) = j + n" using sm by simp
  also have "(j + n) mod n = j" using assms by simp
  finally show ?thesis using n by simp
qed

lemma selectURL_finds:
  assumes "j < length us" "\<not> Dead (us ! j)" "f64_less (loadRatio (us ! j)) MaxFloat64"
  shows "selectURL us s \<noteq> None"
proof -
  let ?i = "(j + length us - s mod length us) mod length us"
  from wrap_index [OF assms(1), of s]
  have i: "?i < length us" "(s + ?i) mod length us = j" by simp_all
  have "fst (fold (scanStep us s) [0..<length us] (None, MaxFloat64)) \<noteq> None"
    by (rule scan_finds [where i = ?i]) (use i assms in simp_all)
  then show ?thesis by (simp add: selectURL_def)
qed

lemma Get_selects:
  assumes "selectURL (urls um) (rnd t mod length (urls um)) = Some j"
  shows "Get rnd t um = Some (URL (urls um ! j), Suc t,
           um\<lparr>urls := (urls um)[j := (urls um ! j)\<lparr>Load := wrap64 (Load (urls um ! j) + 1)\<rparr>]\<rparr>)"
proof -
  have "urls um \<noteq> []" using selectURL_index [OF assms] by auto
  then show ?thesis using assms by (subst Get.simps) (simp add: Get_pass_def)
qed







section \<open>Properties of the forwarder\<close>

lemma slashes_append: "slashes (xs @ ys) = slashes xs + slashes ys"
  by (simp add: slashes_def)

lemma slashes_Nil: "slashes [] = 0"
  by (simp add: slashes_def)

lemma slashes_Cons: "slashes (c # s) = (if c = CHR ''/'' then 1 else 0) + slashes s"
  by (simp add: slashes_def)

lemma slashes_none: "CHR ''/'' \<notin> set s \<Longrightarrow> slashes s = 0"
  by (induction s) (auto simp: slashes_def)

lemma slashes_baseURL:
  assumes "wf_base (s, h)"
  shows "slashes (baseURL s h) = 2"
proof -
  have "slashes s = 0" "slashes h = 0" using assms by (simp_all add: slashes_none wf_base_def)
  then show ?thesis by (simp add: baseURL_def slashes_append slashes_Cons)
qed

lemma url_Parse_baseURL:
  assumes "wf_base (s, h)"
  shows "url_Parse (baseURL s h) = \<lparr>Scheme = s, Host = h, Path = [], RawQuery = []\<rparr>"
proof -
  have c: "CHR '':'' \<notin> set s" and hs: "\<forall>c \<in> set h. c \<noteq> CHR ''/'' \<and> c \<noteq> CHR ''?''"
    using assms by (auto simp: wf_base_def)
  have tw: "takeWhile (\<lambda>c. c \<noteq> CHR '':'') (s @ ''://'' @ h) = s"
    using c by (subst takeWhile_append2) auto
  have th: "takeWhile (\<lambda>c. c \<noteq> CHR ''/'' \<and> c \<noteq> CHR ''?'') h = h"
    using hs by (simp add: takeWhile_eq_all_conv)
  have dh: "dropWhile (\<lambda>c. c \<noteq> CHR ''/'' \<and> c \<noteq> CHR ''?'') h = []"
    using hs by (simp add: dropWhile_eq_Nil_conv)
  show ?thesis unfolding url_Parse_def baseURL_def tw Let_def by (simp add: th dh)
qed

lemma escape_nonempty: "p \<noteq> [] \<Longrightarrow> escape p \<noteq> []"
  by (cases p) (auto simp: escape_def)

lemma EscapedPath_nonempty: "Path u \<noteq> [] \<Longrightarrow> EscapedPath u \<noteq> []"
  by (simp add: EscapedPath_def escape_nonempty)

lemma slashes_hd: "s \<noteq> [] \<Longrightarrow> hd s = CHR ''/'' \<Longrightarrow> 1 \<le> slashes s"
  by (cases s) (auto simp: slashes_def)

lemma slashes_proxied:
  assumes "wf_base (s, h)" "Path rURL \<noteq> []"
  shows "3 \<le> slashes (proxied (baseURL s h) rURL)"
proof -
  let ?u = "\<lparr>Scheme = s, Host = h, Path = Path rURL, RawQuery = RawQuery rURL\<rparr>"
  have ne: "s \<noteq> []" "h \<noteq> []" using assms(1) by (auto simp: wf_base_def)
  have ep: "EscapedPath ?u \<noteq> []" using assms(2) by (simp add: EscapedPath_nonempty)
  have mid: "1 \<le> slashes ((if EscapedPath ?u \<noteq> [] \<and> hd (EscapedPath ?u) \<noteq> CHR ''/'' \<and> Host ?u \<noteq> [] then ''/'' else []) @ EscapedPath ?u)"
  proof (cases "hd (EscapedPath ?u) = CHR ''/''")
    case True
    then show ?thesis using ep slashes_hd [OF ep True] by (simp add: slashes_append slashes_Nil)
  next
    case False
    then show ?thesis using ep ne by (simp add: slashes_append slashes_Cons)
  qed
  have "proxied (baseURL s h) rURL = URL_String ?u"
    by (simp add: proxied_def url_Parse_baseURL [OF assms(1)])
  also have "slashes (URL_String ?u) =
      slashes s + 2 + slashes h
      + slashes ((if EscapedPath ?u \<noteq> [] \<and> hd (EscapedPath ?u) \<noteq> CHR ''/'' \<and> Host ?u \<noteq> [] then ''/'' else []) @ EscapedPath ?u)
      + slashes (if RawQuery ?u \<noteq> [] then ''?'' @ RawQuery ?u else [])"
  proof -
    show ?thesis unfolding URL_String_def using ne
      by (simp add: slashes_append slashes_Cons slashes_Nil)
  qed
  finally show ?thesis using mid by simp
qed

lemma proxied_not_registered:
  assumes "wf_base b" "wf_base b'" "Path rURL \<noteq> []"
  shows "proxied (baseURL (fst b) (snd b)) rURL \<noteq> baseURL (fst b') (snd b')"
proof
  assume e: "proxied (baseURL (fst b) (snd b)) rURL = baseURL (fst b') (snd b')"
  have "3 \<le> slashes (proxied (baseURL (fst b) (snd b)) rURL)"
    using slashes_proxied [of "fst b" "snd b"] assms by simp
  moreover have "slashes (baseURL (fst b') (snd b')) = 2"
    using slashes_baseURL [of "fst b'" "snd b'"] assms by simp
  ultimately show False using e by simp
qed

lemma pristine_registered: "pristine regs 0 (fold AddURL regs NewURLManager)"
proof -
  have "sum_list (map Load (map (\<lambda>u. \<lparr>URL = u, Dead = False, Load = 0, ResponseTime = Fin 0, Weight = Fin 1\<rparr>) regs)) = 0"
    by (induction regs) simp_all
  then show ?thesis
    by (auto simp: pristine_def urls_registered NewURLManager_def comp_def)
qed

lemma member_le_sum_int:
  fixes xs :: "int list"
  shows "\<forall>x \<in> set xs. 0 \<le> x \<Longrightarrow> x \<in> set xs \<Longrightarrow> x \<le> sum_list xs"
proof (induction xs)
  case Nil then show ?case by simp
next
  case (Cons a xs)
  have "0 \<le> sum_list xs" using Cons.prems(1) by (simp add: sum_list_nonneg)
  then show ?case using Cons by auto
qed

lemma sum_list_update_int:
  fixes xs :: "int list"
  shows "k < length xs \<Longrightarrow> sum_list (xs[k := x]) = sum_list xs + x - xs ! k"
proof (induction xs arbitrary: k)
  case Nil then show ?case by simp
next
  case (Cons a xs) then show ?case by (cases k) simp_all
qed

lemma pristine_load_le:
  assumes "pristine regs n um" "m \<in> set (urls um)"
  shows "0 \<le> Load m \<and> Load m \<le> n"
proof -
  have "\<forall>x \<in> set (map Load (urls um)). 0 \<le> x" using assms(1) by (auto simp: pristine_def)
  moreover have "Load m \<in> set (map Load (urls um))" using assms(2) by simp
  ultimately have "Load m \<le> sum_list (map Load (urls um))" by (rule member_le_sum_int)
  then show ?thesis using assms by (auto simp: pristine_def)
qed

lemma MaxFloat64_large: "x < 2 ^ 63 \<Longrightarrow> f64_less (Fin (real_of_int x)) MaxFloat64"
proof -
  assume "x < 2 ^ 63"
  then have "real_of_int x < 2 ^ 63" by (metis of_int_less_iff of_int_numeral of_int_power)
  also have "(2::real) ^ 63 \<le> (2 ^ 53 - 1) * 2 ^ 971" by simp
  finally show ?thesis by (simp add: MaxFloat64_def)
qed

lemma Get_pristine:
  assumes "pristine regs n um" "regs \<noteq> []" "n + 1 < 2 ^ 63"
  shows "\<exists>j um'. j < length regs \<and> Get rnd t um = Some (regs ! j, Suc t, um') \<and> pristine regs (n + 1) um'"
proof -
  let ?us = "urls um"
  have len: "length ?us = length regs" using assms(1) by (auto simp: pristine_def dest: arg_cong [where f = length])
  then have ne: "?us \<noteq> []" using assms(2) by auto
  have all: "\<And>m. m \<in> set ?us \<Longrightarrow> \<not> Dead m \<and> Weight m = Fin 1 \<and> 0 \<le> Load m \<and> Load m \<le> n"
    using assms(1) pristine_load_le [OF assms(1)] by (auto simp: pristine_def)
  have m0: "?us ! 0 \<in> set ?us" using ne by simp
  have "f64_less (loadRatio (?us ! 0)) MaxFloat64"
    using all [OF m0] assms(3) MaxFloat64_large [of "Load (?us ! 0)"]
    by (simp add: loadRatio_def float64_def)
  then have "selectURL ?us (rnd t mod length ?us) \<noteq> None"
    using ne all [OF m0] by (intro selectURL_finds [where j = 0]) simp_all
  then obtain j where sel: "selectURL ?us (rnd t mod length ?us) = Some j" by auto
  then have j: "j < length ?us" by (rule selectURL_index)
  let ?m = "?us ! j"
  let ?um = "um\<lparr>urls := ?us[j := ?m\<lparr>Load := wrap64 (Load ?m + 1)\<rparr>]\<rparr>"
  have mj: "?m \<in> set ?us" using j by simp
  have w: "wrap64 (Load ?m + 1) = Load ?m + 1"
    using all [OF mj] assms(3) by (intro wrap64_id) simp_all
  have g: "Get rnd t um = Some (URL ?m, Suc t, ?um)"
    by (rule Get_selects [where rnd = rnd and t = t, OF sel])
  have u: "URL ?m = regs ! j" using assms(1) j by (auto simp: pristine_def dest: arg_cong [where f = "\<lambda>l. l ! j"])
  have "map URL (urls ?um) = (map URL ?us)[j := URL ?m]" by (simp add: map_update)
  also have "\<dots> = (map URL ?us)[j := map URL ?us ! j]" using j by simp
  also have "\<dots> = map URL ?us" by (rule list_update_id)
  finally have p1: "map URL (urls ?um) = regs" using assms(1) by (simp add: pristine_def)
  have p2: "\<forall>m \<in> set (urls ?um). \<not> Dead m \<and> Weight m = Fin 1 \<and> 0 \<le> Load m"
  proof
    fix m assume "m \<in> set (urls ?um)"
    then have "m \<in> set ?us \<or> m = ?m\<lparr>Load := wrap64 (Load ?m + 1)\<rparr>"
      using set_update_subset_insert [of ?us j] by auto
    then show "\<not> Dead m \<and> Weight m = Fin 1 \<and> 0 \<le> Load m"
      using all [OF mj] all w by auto
  qed
  have "map Load (urls ?um) = (map Load ?us)[j := Load ?m + 1]" by (simp add: map_update w)
  then have "sum_list (map Load (urls ?um)) = sum_list (map Load ?us) + (Load ?m + 1) - (map Load ?us) ! j"
    using j by (simp add: sum_list_update_int)
  then have p3: "sum_list (map Load (urls ?um)) = n + 1"
    using assms(1) j by (simp add: pristine_def)
  have "pristine regs (n + 1) ?um" using p1 p2 p3 by (simp add: pristine_def)
  then show ?thesis using g u j len by auto
qed

lemma pristine_urls: "pristine regs n um \<Longrightarrow> URL ` set (urls um) = set regs"
proof -
  assume "pristine regs n um"
  then have "set (map URL (urls um)) = set regs" by (simp add: pristine_def)
  then show ?thesis by simp
qed

lemma baseURL_nonempty: "baseURL s h \<noteq> []"
  by (simp add: baseURL_def)

lemma Done_no_match: "url \<notin> URL ` set (urls um) \<Longrightarrow> Done url rt cl um = um"
  by (simp add: Done_def updateFirst_none)

lemma MarkDead_no_match: "url \<notin> URL ` set (urls um) \<Longrightarrow> MarkDead url um = um"
  by (simp add: MarkDead_def updateFirst_none)

lemma attempt_pristine:
  assumes p: "pristine regs n (manager st)"
      and regs: "regs = map (\<lambda>b. baseURL (fst b) (snd b)) bs"
      and bs: "bs \<noteq> []" "\<forall>b \<in> set bs. wf_base b"
      and path: "Path rURL \<noteq> []"
      and n: "n + 1 < 2 ^ 63"
  shows "\<exists>v st'. attempt up rURL rnd st = Some (v, st') \<and> pristine regs (n + 1) (manager st')"
proof -
  have "regs \<noteq> []" using regs bs(1) by simp
  from Get_pristine [OF p this n, of rnd "drawn st"] obtain j um' where
    j: "j < length regs" and g: "Get rnd (drawn st) (manager st) = Some (regs ! j, Suc (drawn st), um')"
    and p': "pristine regs (n + 1) um'" by blast
  let ?target = "regs ! j"
  let ?full = "URL_String ((url_Parse ?target)\<lparr>Path := Path rURL, RawQuery := RawQuery rURL\<rparr>)"
  have jb: "j < length bs" using j regs by simp
  then have t: "?target = baseURL (fst (bs ! j)) (snd (bs ! j))" using regs by simp
  have wj: "wf_base (bs ! j)" using bs(2) jb by simp
  have tne: "?target \<noteq> []" using t baseURL_nonempty by simp
  have "?full \<notin> set regs"
  proof
    assume "?full \<in> set regs"
    then obtain b' where b': "b' \<in> set bs" "?full = baseURL (fst b') (snd b')" using regs by auto
    then have "wf_base b'" using bs(2) by simp
    from proxied_not_registered [OF wj this path] b'(2) t show False by (simp add: proxied_def)
  qed
  moreover have "URL ` set (urls um') = set regs" using p' by (rule pristine_urls)
  ultimately have nm: "?full \<notin> URL ` set (urls um')" by simp
  have d: "\<And>rt cl. Done ?full rt cl um' = um'" using nm by (rule Done_no_match)
  have k: "MarkDead ?full um' = um'" using nm by (rule MarkDead_no_match)
  obtain rt oc where up: "up (attempts st) ?full = (rt, oc)" by (cases "up (attempts st) ?full")
  show ?thesis
  proof (cases oc)
    case TransportError
    then show ?thesis using g tne up p' by (simp add: attempt_def)
  next
    case (Response status cl body)
    then show ?thesis using g tne up p' d k by (simp add: attempt_def Let_def)
  qed
qed

lemma run_attempts_pristine:
  assumes regs: "regs = map (\<lambda>b. baseURL (fst b) (snd b)) bs"
      and bs: "bs \<noteq> []" "\<forall>b \<in> set bs. wf_base b"
  shows "pristine regs n (manager st) \<Longrightarrow> \<forall>x \<in> set xs. Path (fst x) \<noteq> [] \<Longrightarrow>
         n + int (length xs) < 2 ^ 63 \<Longrightarrow>
         \<exists>st'. run_attempts rnd xs st = Some st' \<and> pristine regs (n + int (length xs)) (manager st')"
proof (induction xs arbitrary: n st)
  case Nil
  then show ?case by simp
next
  case (Cons x xs)
  obtain rURL rt oc where x: "x = (rURL, rt, oc)" by (cases x)
  have path: "Path rURL \<noteq> []" using Cons.prems(2) x by simp
  have n: "n + 1 < 2 ^ 63" using Cons.prems(3) by simp
  from attempt_pristine [OF Cons.prems(1) regs bs path n, of "\<lambda>i u. (rt, oc)" rnd]
  obtain v st1 where a: "attempt (\<lambda>i u. (rt, oc)) rURL rnd st = Some (v, st1)"
    and p1: "pristine regs (n + 1) (manager st1)" by blast
  have "\<forall>x \<in> set xs. Path (fst x) \<noteq> []" using Cons.prems(2) by simp
  moreover have "n + 1 + int (length xs) < 2 ^ 63" using Cons.prems(3) by simp
  ultimately obtain st' where "run_attempts rnd xs st1 = Some st'"
    "pristine regs (n + 1 + int (length xs)) (manager st')"
    using Cons.IH [OF p1] by blast
  then show ?case using a x by (simp add: add.assoc)
qed

text \<open>
  Claim C10. The mirrors are registered under base URLs (a scheme and a host, no slash in
  either), and every request has a path that is not empty. Then any sequence of turns of
  the retry loop runs to its end, and afterwards every mirror is alive, has weight one and
  a load from zero up, the loads add up to the number of turns (each turn adds one in
  \<open>Get\<close> and nothing is ever taken off), and no registered URL is equal to a URL that
  the turns pass to \<open>Done\<close> and \<open>MarkDead\<close>.
\<close>

theorem proxied_calls_match_no_mirror:
  assumes "bs \<noteq> []" and "\<forall>b \<in> set bs. wf_base b"
      and "\<forall>x \<in> set xs. Path (fst x) \<noteq> []"
      and "length xs < 2 ^ 63"
  shows "\<exists>st. run_attempts rnd xs
                \<lparr>tickets = 0, deferred = 0, attempts = 0, drawn = 0,
                 manager = fold AddURL (map (\<lambda>b. baseURL (fst b) (snd b)) bs) NewURLManager,
                 cache = fs\<rparr> = Some st
          \<and> (\<forall>m \<in> set (urls (manager st)). \<not> Dead m \<and> Weight m = Fin 1 \<and> 0 \<le> Load m)
          \<and> sum_list (map Load (urls (manager st))) = int (length xs)
          \<and> (\<forall>m \<in> set (urls (manager st)). \<forall>m' \<in> set (urls (manager st)). \<forall>x \<in> set xs.
                URL m \<noteq> proxied (URL m') (fst x))"
proof -
  let ?regs = "map (\<lambda>b. baseURL (fst b) (snd b)) bs"
  let ?st = "\<lparr>tickets = 0, deferred = 0, attempts = 0, drawn = 0,
                 manager = fold AddURL ?regs NewURLManager, cache = fs\<rparr>"
  have p0: "pristine ?regs 0 (manager ?st)" using pristine_registered [of ?regs] by simp
  have "0 + int (length xs) < 2 ^ 63" using assms(4) by simp
  from run_attempts_pristine [OF refl assms(1,2) p0 assms(3) this, of rnd]
  obtain st where r: "run_attempts rnd xs ?st = Some st"
    and p: "pristine ?regs (int (length xs)) (manager st)" by auto
  have urls: "URL ` set (urls (manager st)) = set ?regs"
    using p by (rule pristine_urls)
  have "\<forall>m \<in> set (urls (manager st)). \<forall>m' \<in> set (urls (manager st)). \<forall>x \<in> set xs.
          URL m \<noteq> proxied (URL m') (fst x)"
  proof (intro ballI)
    fix m m' x assume "m \<in> set (urls (manager st))" "m' \<in> set (urls (manager st))" "x \<in> set xs"
    then obtain b b' where "b \<in> set bs" "b' \<in> set bs"
      "URL m = baseURL (fst b) (snd b)" "URL m' = baseURL (fst b') (snd b')"
      using urls by (metis (no_types, lifting) image_eqI image_iff list.set_map)
    moreover have "Path (fst x) \<noteq> []" using assms(3) \<open>x \<in> set xs\<close> by simp
    ultimately show "URL m \<noteq> proxied (URL m') (fst x)"
      using proxied_not_registered [of b' b "fst x"] assms(2) by auto
  qed
  then show ?thesis using r p by (auto simp: pristine_def)
qed

lemma mirror_bases_mirrors: "map (\<lambda>b. baseURL (fst b) (snd b)) mirror_bases = mirrors"
  by (simp add: mirror_bases_def mirrors_def baseURL_def)

theorem proxied_calls_match_no_mirror_witness:
  "mirror_bases \<noteq> [] \<and> list_all wf_base mirror_bases
   \<and> list_all (\<lambda>x. Path (fst x) \<noteq> []) [(rootURL, Fin 1, TransportError), (rootURL, Fin 1, Response 404 0 [])]
   \<and> length [(rootURL, Fin 1, TransportError), (rootURL, Fin 1, Response 404 0 [])] < 2 ^ 63
   \<and> (\<exists>st. run_attempts rnd0 [(rootURL, Fin 1, TransportError), (rootURL, Fin 1, Response 404 0 [])]
                \<lparr>tickets = 0, deferred = 0, attempts = 0, drawn = 0, manager = glourls, cache = Map.empty\<rparr> = Some st
          \<and> list_all (\<lambda>m. \<not> Dead m \<and> Weight m = Fin 1 \<and> 0 \<le> Load m) (urls (manager st))
          \<and> sum_list (map Load (urls (manager st))) = 2)"
proof -
  let ?xs = "[(rootURL, Fin 1, TransportError), (rootURL, Fin 1, Response 404 0 [])]"
  have h1: "mirror_bases \<noteq> []" by (simp add: mirror_bases_def)
  have h2: "\<forall>b \<in> set mirror_bases. wf_base b" by (simp add: mirror_bases_def wf_base_def)
  have h3: "\<forall>x \<in> set ?xs. Path (fst x) \<noteq> []" by (simp add: rootURL_def)
  have h4: "length ?xs < 2 ^ 63" by simp
  have g: "fold AddURL (map (\<lambda>b. baseURL (fst b) (snd b)) mirror_bases) NewURLManager = glourls"
    by (simp add: mirror_bases_mirrors glourls_def)
  from proxied_calls_match_no_mirror [OF h1 h2 h3 h4, of rnd0 Map.empty]
  have "\<exists>st. run_attempts rnd0 ?xs
                \<lparr>tickets = 0, deferred = 0, attempts = 0, drawn = 0, manager = glourls, cache = Map.empty\<rparr> = Some st
          \<and> list_all (\<lambda>m. \<not> Dead m \<and> Weight m = Fin 1 \<and> 0 \<le> Load m) (urls (manager st))
          \<and> sum_list (map Load (urls (manager st))) = 2"
    unfolding g by (auto simp: list_all_iff)
  then show ?thesis using h1 h2 h3 h4 unfolding list_all_iff by blast
qed

lemma glourls_loaded: "glourls = loaded [0, 0, 0, 0, 0, 0, 0, 0]"
  by (simp add: glourls_def loaded_def mirrors_def AddURL_def NewURLManager_def)

lemmas forwarder_defs = attempt_def loaded_def mirrors_def rnd0_def rootURL_def
  url_Parse_def URL_String_def EscapedPath_def escape_def shouldEscape_def shouldCache_def
  streamBody_def writeRecord_def

text \<open>
  Claim C2 fails on the code. The upstream fails in transport six times and then answers
  200: \<open>proxyRequest\<close> sends seven upstream requests. The deferred increments of
  \<^verbatim>\<open>tickets\<close> run when the function returns, so the test \<^verbatim>\<open>tickets >= 6\<close> never holds
  inside the loop.
\<close>

theorem retry_exceeds_budget:
  "proxyRequest (failing 6) rootURL rnd0 0 glourls Map.empty =
     Some (Forwarded 200,
           \<lparr>tickets = 7, deferred = 0, attempts = 7, drawn = 7,
            manager = loaded [1, 1, 1, 1, 1, 1, 1, 0], cache = Map.empty\<rparr>)"
  unfolding proxyRequest_def glourls_loaded
  apply (simp add: shouldCache_def rootURL_def)
  apply (subst retryLoop.simps, simp add: forwarder_defs, subst Get.simps, simp add: selector_defs failing_def forwarder_defs)
  apply (subst retryLoop.simps, simp add: forwarder_defs, subst Get.simps, simp add: selector_defs failing_def forwarder_defs)
  apply (subst retryLoop.simps, simp add: forwarder_defs, subst Get.simps, simp add: selector_defs failing_def forwarder_defs)
  apply (subst retryLoop.simps, simp add: forwarder_defs, subst Get.simps, simp add: selector_defs failing_def forwarder_defs)
  apply (subst retryLoop.simps, simp add: forwarder_defs, subst Get.simps, simp add: selector_defs failing_def forwarder_defs)
  apply (subst retryLoop.simps, simp add: forwarder_defs, subst Get.simps, simp add: selector_defs failing_def forwarder_defs)
  apply (subst retryLoop.simps, simp add: forwarder_defs, subst Get.simps, simp add: selector_defs failing_def forwarder_defs)
  done

text \<open>
  Claim C5 fails on the code. The first mirror fails in transport, the second answers 404,
  the third answers 200. At the end the first and the second mirror are alive and keep the
  load of one that \<open>Get\<close> gave them: nothing marks a mirror dead after a transport failure,
  and after the 404 \<open>MarkDead\<close> is called with the URL of the request, which no mirror has.
\<close>

theorem failed_mirrors_stay_alive:
  "proxyRequest unlucky rootURL rnd0 0 glourls Map.empty =
     Some (Forwarded 200,
           \<lparr>tickets = 3, deferred = 0, attempts = 3, drawn = 3,
            manager = loaded [1, 1, 1, 0, 0, 0, 0, 0], cache = Map.empty\<rparr>)"
  unfolding proxyRequest_def glourls_loaded
  apply (simp add: shouldCache_def rootURL_def)
  apply (subst retryLoop.simps, simp add: forwarder_defs, subst Get.simps, simp add: selector_defs unlucky_def forwarder_defs)
  apply (subst retryLoop.simps, simp add: forwarder_defs, subst Get.simps, simp add: selector_defs unlucky_def forwarder_defs)
  apply (subst retryLoop.simps, simp add: forwarder_defs, subst Get.simps, simp add: selector_defs unlucky_def forwarder_defs)
  done

section \<open>Properties of the cache\<close>


lemma blob_names:
  "getCacheFilePath blobPath = ''cache/abc.dat''"
  "getRecordFilePath blobPath = ''cache/abc_record.txt''"
  "getCacheFilePathWithPart blobPath i = ''cache/abc_part_'' @ showInt i @ ''.dat''"
  "getRecordFilePath ''cache/abc.dat'' = ''cache/abc.dat_record.txt''"
  "getCacheFilePathWithPart ''cache/abc.dat'' i = ''cache/abc.dat_part_'' @ showInt i @ ''.dat''"
  "getCacheFilePath ''cache/abc.dat'' = ''cache/abc.dat.dat''"
  "getRecordFilePath ''cache/abc.dat.dat'' = ''cache/abc.dat.dat_record.txt''"
  "extractHashFromURL ''cache/abc.dat'' = ''abc.dat''"
  "shouldCache blobPath"
  by (simp_all add: getCacheFilePath_def getRecordFilePath_def getCacheFilePathWithPart_def
      filepath_Join_def cacheDir_def extractHashFromURL_def isHex_def lastSegment_def blobPath_def
      shouldCache_def)








text \<open>
  Claim C3 fails on the code. A blob whose bytes are \<^verbatim>\<open>hello\<close> is written for the key
  \<^verbatim>\<open>abc\<close>; \<open>proxyRequest\<close> then starts \<open>checkCacheFileSize\<close> with the cache file path. The
  check derives its file names from that path as if it were the URL, looks for
  \<^verbatim>\<open>cache/abc.dat.dat\<close>, finds nothing and deletes nothing, whatever the hash of the bytes
  is, and the next read serves the bytes.
\<close>

theorem verification_misses_the_entry:
  "disk (streamBody blobPath 5 [''hello''] Map.empty) = fs_flat
   \<and> cacheFilePath (streamBody blobPath 5 [''hello''] Map.empty) = ''cache/abc.dat''
   \<and> checkCacheFileSize sha ''cache/abc.dat'' ''5'' fs_flat = fs_flat
   \<and> serveFromCache fs_flat (getCacheFilePath blobPath) = (''hello'', True)"
proof (intro conjI)
  show "disk (streamBody blobPath 5 [''hello''] Map.empty) = fs_flat"
    by (simp add: streamBody_def writeRecord_def copyChunk_def blob_names os_Create_def file_Write_def fs_flat_def)
  show "cacheFilePath (streamBody blobPath 5 [''hello''] Map.empty) = ''cache/abc.dat''"
    by (simp add: streamBody_def writeRecord_def copyChunk_def blob_names os_Create_def file_Write_def)
  show "checkCacheFileSize sha ''cache/abc.dat'' ''5'' fs_flat = fs_flat"
    by (simp add: checkCacheFileSize_def ParseInt_def isDigit_def natOfDigits_def blob_names fs_flat_def)
  show "serveFromCache fs_flat (getCacheFilePath blobPath) = (''hello'', True)"
    by (simp add: serveFromCache_def blob_names fs_flat_def)
qed

lemma copyChunk_split_other:
  assumes "\<And>i. q \<noteq> getCacheFilePathWithPart urlPath i" "part_handle urlPath st"
  shows "disk (copyChunk urlPath True b st) q = disk st q \<and> part_handle urlPath (copyChunk urlPath True b st)"
proof (cases "cacheFile st")
  case None
  then show ?thesis using assms(1)
    by (auto simp: copyChunk_def Let_def part_handle_def os_Create_def file_Write_def)
next
  case (Some name)
  then obtain i where "name = getCacheFilePathWithPart urlPath i"
    using assms(2) by (auto simp: part_handle_def)
  then show ?thesis using assms(1) Some
    by (auto simp: copyChunk_def Let_def part_handle_def os_Create_def file_Write_def)
qed

lemma copyLoop_split_other:
  assumes "\<And>i. q \<noteq> getCacheFilePathWithPart urlPath i"
  shows "part_handle urlPath st \<Longrightarrow> disk (copyLoop urlPath True reads st) q = disk st q"
proof (induction reads arbitrary: st)
  case Nil
  then show ?case by simp
next
  case (Cons b reads)
  show ?case
  proof (cases "b = []")
    case True
    then show ?thesis using Cons by simp
  next
    case False
    from copyChunk_split_other [OF assms Cons.prems, of b]
    have "disk (copyChunk urlPath True b st) q = disk st q" "part_handle urlPath (copyChunk urlPath True b st)"
      by simp_all
    then show ?thesis using Cons.IH [of "copyChunk urlPath True b st"] False by simp
  qed
qed

lemma streamBody_split_other:
  assumes "\<And>i. q \<noteq> getCacheFilePathWithPart urlPath i" "q \<noteq> getRecordFilePath urlPath"
      and "100 * 1024 * 1024 < contentLength"
  shows "disk (streamBody urlPath contentLength reads fs) q = fs q"
proof -
  let ?st = "\<lparr>disk = fs, cacheFile = None, cacheFilePath = getCacheFilePath urlPath,
            part = 0, totalReadSize = 0, written = []\<rparr>"
  have "part_handle urlPath ?st" by (simp add: part_handle_def)
  from copyLoop_split_other [OF assms(1) this, of reads]
  have "disk (copyLoop urlPath True reads ?st) q = fs q" by simp
  then show ?thesis using assms(2,3)
    by (simp add: streamBody_def writeRecord_def os_Create_def file_Write_def)
qed

lemma copyLoop_append:
  "copyLoop urlPath split (xs @ ys) st = copyLoop urlPath split ys (copyLoop urlPath split xs st)"
  by (induction xs arbitrary: st) simp_all

lemma copyChunk_same_part:
  assumes "shouldCache urlPath" "cacheFile st = Some name" "disk st name = Some old"
      and "totalReadSize st + int (length b) \<le> chunkSize"
  shows "copyChunk urlPath True b st =
           st\<lparr>disk := (disk st)(name \<mapsto> old @ b),
              totalReadSize := totalReadSize st + int (length b),
              written := written st @ b\<rparr>"
  using assms by (simp add: copyChunk_def Let_def file_Write_def)

lemma copyChunk_next_part:
  assumes "shouldCache urlPath"
      and "cacheFile st = None \<or> totalReadSize st + int (length b) > chunkSize"
  shows "copyChunk urlPath True b st =
           st\<lparr>disk := (disk st)(getCacheFilePathWithPart urlPath (part st) \<mapsto> b),
              cacheFile := Some (getCacheFilePathWithPart urlPath (part st)),
              cacheFilePath := getCacheFilePathWithPart urlPath (part st),
              part := part st + 1,
              totalReadSize := (if cacheFile st = None then totalReadSize st else 0) + int (length b),
              written := written st @ b\<rparr>"
  using assms by (auto simp: copyChunk_def Let_def file_Write_def os_Create_def)

lemma copyLoop_fill:
  assumes "shouldCache urlPath" "b \<noteq> []"
  shows "cacheFile st = Some name \<Longrightarrow> disk st name = Some old \<Longrightarrow>
         totalReadSize st + int k * int (length b) \<le> chunkSize \<Longrightarrow>
         copyLoop urlPath True (replicate k b) st =
           st\<lparr>disk := (disk st)(name \<mapsto> old @ concat (replicate k b)),
              totalReadSize := totalReadSize st + int k * int (length b),
              written := written st @ concat (replicate k b)\<rparr>"
proof (induction k arbitrary: st old)
  case 0
  then show ?case by (simp add: fun_upd_idem)
next
  case (Suc k)
  have le: "totalReadSize st + int (length b) \<le> chunkSize"
  proof -
    have "int (length b) \<le> int (Suc k) * int (length b)" by (simp add: mult_le_cancel_right1)
    then show ?thesis using Suc.prems(3) by linarith
  qed
  let ?st = "st\<lparr>disk := (disk st)(name \<mapsto> old @ b),
              totalReadSize := totalReadSize st + int (length b),
              written := written st @ b\<rparr>"
  have c: "copyChunk urlPath True b st = ?st"
    by (rule copyChunk_same_part [OF assms(1) Suc.prems(1,2) le])
  have "copyLoop urlPath True (replicate k b) ?st =
          ?st\<lparr>disk := (disk ?st)(name \<mapsto> (old @ b) @ concat (replicate k b)),
              totalReadSize := totalReadSize ?st + int k * int (length b),
              written := written ?st @ concat (replicate k b)\<rparr>"
    by (rule Suc.IH) (use Suc.prems in \<open>simp_all add: distrib_right add.assoc\<close>)
  then show ?case using c assms(2)
    by (intro copy.equality) (simp_all add: distrib_right add.assoc fun_eq_iff)
qed

lemma copyLoop_new_part:
  assumes "shouldCache urlPath" "b \<noteq> []"
      and "cacheFile st = None \<or> totalReadSize st + int (length b) > chunkSize"
      and "cacheFile st = None \<longrightarrow> totalReadSize st = 0"
      and "int (Suc k) * int (length b) \<le> chunkSize"
  shows "copyLoop urlPath True (replicate (Suc k) b) st =
           st\<lparr>disk := (disk st)(getCacheFilePathWithPart urlPath (part st) \<mapsto> concat (replicate (Suc k) b)),
              cacheFile := Some (getCacheFilePathWithPart urlPath (part st)),
              cacheFilePath := getCacheFilePathWithPart urlPath (part st),
              part := part st + 1,
              totalReadSize := int (Suc k) * int (length b),
              written := written st @ concat (replicate (Suc k) b)\<rparr>"
proof -
  let ?name = "getCacheFilePathWithPart urlPath (part st)"
  let ?st = "st\<lparr>disk := (disk st)(?name \<mapsto> b), cacheFile := Some ?name, cacheFilePath := ?name,
              part := part st + 1, totalReadSize := int (length b), written := written st @ b\<rparr>"
  have t: "(if cacheFile st = None then totalReadSize st else 0) = 0" using assms(4) by simp
  have c: "copyChunk urlPath True b st = ?st"
    using copyChunk_next_part [OF assms(1,3)] t by simp
  have "copyLoop urlPath True (replicate k b) ?st =
          ?st\<lparr>disk := (disk ?st)(?name \<mapsto> b @ concat (replicate k b)),
              totalReadSize := totalReadSize ?st + int k * int (length b),
              written := written ?st @ concat (replicate k b)\<rparr>"
    by (rule copyLoop_fill [OF assms(1,2)]) (use assms(5) in \<open>simp_all add: distrib_right\<close>)
  then show ?thesis using c assms(2)
    by (intro copy.equality) (simp_all add: distrib_right fun_eq_iff)
qed

lemma concat_replicate_replicate: "concat (replicate k (replicate n c)) = replicate (k * n) c"
  by (induction k) (simp_all add: replicate_add)

lemma blob_part_names:
  "getCacheFilePathWithPart blobPath 0 = ''cache/abc_part_0.dat''"
  "getCacheFilePathWithPart blobPath 1 = ''cache/abc_part_1.dat''"
  "getCacheFilePathWithPart blobPath 2 = ''cache/abc_part_2.dat''"
  "getRecordFilePath blobPath = ''cache/abc_record.txt''"
  "shouldCache blobPath"
  by (simp_all add: getCacheFilePath_def getRecordFilePath_def getCacheFilePathWithPart_def
      filepath_Join_def cacheDir_def extractHashFromURL_def isHex_def blobPath_def
      shouldCache_def showInt_def digit_def)

text \<open>
  Claim C4 fails on the code. A body of 250 MiB arrives in 4000 reads of 64 KiB and is
  written with the chunk size of 100 MiB. The directory then holds three part files of 100,
  100 and 50 MiB, and a record file that states three parts and, as the total size, the
  52428800 bytes of the last part: \<^verbatim>\<open>totalReadSize\<close> is set back to zero whenever a
  new part is opened.
\<close>

theorem record_states_last_part_size:
  "disk (streamBody blobPath 262144000 (replicate 4000 (replicate 65536 c)) Map.empty) =
     [''cache/abc_part_0.dat'' \<mapsto> replicate 104857600 c,
      ''cache/abc_part_1.dat'' \<mapsto> replicate 104857600 c,
      ''cache/abc_part_2.dat'' \<mapsto> replicate 52428800 c,
      ''cache/abc_record.txt'' \<mapsto> ''Parts: 3'' @ newline @ ''TotalSize: 52428800'' @ newline]"
proof -
  let ?b = "replicate 65536 c"
  let ?st0 = "\<lparr>disk = Map.empty, cacheFile = None, cacheFilePath = getCacheFilePath blobPath,
                part = 0, totalReadSize = 0, written = []\<rparr>"
  have b: "?b \<noteq> []" by simp
  have sc: "shouldCache blobPath" by (rule blob_part_names(5))
  have r: "replicate 4000 ?b = replicate (Suc 1599) ?b @ replicate (Suc 1599) ?b @ replicate (Suc 799) ?b"
    by (simp add: replicate_add [symmetric])
  let ?st1 = "copyLoop blobPath True (replicate (Suc 1599) ?b) ?st0"
  have s1: "?st1 = \<lparr>disk = [''cache/abc_part_0.dat'' \<mapsto> replicate 104857600 c],
                     cacheFile = Some ''cache/abc_part_0.dat'', cacheFilePath = ''cache/abc_part_0.dat'',
                     part = 1, totalReadSize = 104857600, written = replicate 104857600 c\<rparr>"
    by (subst copyLoop_new_part [OF sc b])
       (simp_all add: chunkSize_def blob_part_names concat_replicate_replicate del: replicate_Suc replicate.simps)
  let ?st2 = "copyLoop blobPath True (replicate (Suc 1599) ?b) ?st1"
  have s2: "?st2 = \<lparr>disk = [''cache/abc_part_0.dat'' \<mapsto> replicate 104857600 c,
                             ''cache/abc_part_1.dat'' \<mapsto> replicate 104857600 c],
                     cacheFile = Some ''cache/abc_part_1.dat'', cacheFilePath = ''cache/abc_part_1.dat'',
                     part = 2, totalReadSize = 104857600,
                     written = replicate 104857600 c @ replicate 104857600 c\<rparr>"
    unfolding s1
    by (subst copyLoop_new_part [OF sc b])
       (simp_all add: chunkSize_def blob_part_names concat_replicate_replicate del: replicate_Suc replicate.simps)
  let ?st3 = "copyLoop blobPath True (replicate (Suc 799) ?b) ?st2"
  have s3: "?st3 = \<lparr>disk = [''cache/abc_part_0.dat'' \<mapsto> replicate 104857600 c,
                             ''cache/abc_part_1.dat'' \<mapsto> replicate 104857600 c,
                             ''cache/abc_part_2.dat'' \<mapsto> replicate 52428800 c],
                     cacheFile = Some ''cache/abc_part_2.dat'', cacheFilePath = ''cache/abc_part_2.dat'',
                     part = 3, totalReadSize = 52428800,
                     written = replicate 104857600 c @ replicate 104857600 c @ replicate 52428800 c\<rparr>"
    unfolding s2
    by (subst copyLoop_new_part [OF sc b])
       (simp_all add: chunkSize_def blob_part_names concat_replicate_replicate del: replicate_Suc replicate.simps)
  have fin: "copyLoop blobPath True (replicate 4000 ?b) ?st0 =
     \<lparr>disk = [''cache/abc_part_0.dat'' \<mapsto> replicate 104857600 c,
                             ''cache/abc_part_1.dat'' \<mapsto> replicate 104857600 c,
                             ''cache/abc_part_2.dat'' \<mapsto> replicate 52428800 c],
                     cacheFile = Some ''cache/abc_part_2.dat'', cacheFilePath = ''cache/abc_part_2.dat'',
                     part = 3, totalReadSize = 52428800,
                     written = replicate 104857600 c @ replicate 104857600 c @ replicate 52428800 c\<rparr>"
    unfolding r copyLoop_append by (rule s3)
  have t: "recordText 3 52428800 = ''Parts: 3'' @ newline @ ''TotalSize: 52428800'' @ newline"
    by (simp add: recordText_def showInt_def digit_def)
  have big: "(262144000::int) > 100 * 1024 * 1024" by simp
  show ?thesis
    unfolding streamBody_def Let_def writeRecord_def using big sc
    by (simp add: fin blob_part_names os_Create_def file_Write_def t
        del: replicate_Suc replicate.simps)
qed

lemma three_chunks_written:
  "disk (streamBody blobPath 314572800 (replicate 4800 (replicate 65536 c)) Map.empty) =
     [''cache/abc_part_0.dat'' \<mapsto> replicate 104857600 c,
      ''cache/abc_part_1.dat'' \<mapsto> replicate 104857600 c,
      ''cache/abc_part_2.dat'' \<mapsto> replicate 104857600 c,
      ''cache/abc_record.txt'' \<mapsto> ''Parts: 3'' @ newline @ ''TotalSize: 104857600'' @ newline]"
proof -
  let ?b = "replicate 65536 c"
  let ?st0 = "\<lparr>disk = Map.empty, cacheFile = None, cacheFilePath = getCacheFilePath blobPath,
                part = 0, totalReadSize = 0, written = []\<rparr>"
  have b: "?b \<noteq> []" by simp
  have sc: "shouldCache blobPath" by (rule blob_part_names(5))
  have r: "replicate 4800 ?b = replicate (Suc 1599) ?b @ replicate (Suc 1599) ?b @ replicate (Suc 1599) ?b"
    by (simp add: replicate_add [symmetric])
  let ?st1 = "copyLoop blobPath True (replicate (Suc 1599) ?b) ?st0"
  have s1: "?st1 = \<lparr>disk = [''cache/abc_part_0.dat'' \<mapsto> replicate 104857600 c],
                     cacheFile = Some ''cache/abc_part_0.dat'', cacheFilePath = ''cache/abc_part_0.dat'',
                     part = 1, totalReadSize = 104857600, written = replicate 104857600 c\<rparr>"
    by (subst copyLoop_new_part [OF sc b])
       (simp_all add: chunkSize_def blob_part_names concat_replicate_replicate del: replicate_Suc replicate.simps)
  let ?st2 = "copyLoop blobPath True (replicate (Suc 1599) ?b) ?st1"
  have s2: "?st2 = \<lparr>disk = [''cache/abc_part_0.dat'' \<mapsto> replicate 104857600 c,
                             ''cache/abc_part_1.dat'' \<mapsto> replicate 104857600 c],
                     cacheFile = Some ''cache/abc_part_1.dat'', cacheFilePath = ''cache/abc_part_1.dat'',
                     part = 2, totalReadSize = 104857600,
                     written = replicate 104857600 c @ replicate 104857600 c\<rparr>"
    unfolding s1
    by (subst copyLoop_new_part [OF sc b])
       (simp_all add: chunkSize_def blob_part_names concat_replicate_replicate del: replicate_Suc replicate.simps)
  let ?st3 = "copyLoop blobPath True (replicate (Suc 1599) ?b) ?st2"
  have s3: "?st3 = \<lparr>disk = [''cache/abc_part_0.dat'' \<mapsto> replicate 104857600 c,
                             ''cache/abc_part_1.dat'' \<mapsto> replicate 104857600 c,
                             ''cache/abc_part_2.dat'' \<mapsto> replicate 104857600 c],
                     cacheFile = Some ''cache/abc_part_2.dat'', cacheFilePath = ''cache/abc_part_2.dat'',
                     part = 3, totalReadSize = 104857600,
                     written = replicate 104857600 c @ replicate 104857600 c @ replicate 104857600 c\<rparr>"
    unfolding s2
    by (subst copyLoop_new_part [OF sc b])
       (simp_all add: chunkSize_def blob_part_names concat_replicate_replicate del: replicate_Suc replicate.simps)
  have fin: "copyLoop blobPath True (replicate 4800 ?b) ?st0 =
     \<lparr>disk = [''cache/abc_part_0.dat'' \<mapsto> replicate 104857600 c,
                             ''cache/abc_part_1.dat'' \<mapsto> replicate 104857600 c,
                             ''cache/abc_part_2.dat'' \<mapsto> replicate 104857600 c],
                     cacheFile = Some ''cache/abc_part_2.dat'', cacheFilePath = ''cache/abc_part_2.dat'',
                     part = 3, totalReadSize = 104857600,
                     written = replicate 104857600 c @ replicate 104857600 c @ replicate 104857600 c\<rparr>"
    unfolding r copyLoop_append by (rule s3)
  have t: "recordText 3 104857600 = ''Parts: 3'' @ newline @ ''TotalSize: 104857600'' @ newline"
    by (simp add: recordText_def showInt_def digit_def)
  have big: "(314572800::int) > 100 * 1024 * 1024" by simp
  show ?thesis
    unfolding streamBody_def Let_def writeRecord_def using big sc
    by (simp add: fin blob_part_names os_Create_def file_Write_def t
        del: replicate_Suc replicate.simps)
qed

text \<open>
  Claim C7 fails on the code. A body of three times the chunk size, arriving in 4800 reads
  of 64 KiB, is written as three part files and a record file. But whatever the body of a
  response of this declared length is, \<open>serveFromCache\<close> afterwards finds no entry for the
  key: it looks for the record file under \<^verbatim>\<open>cache/abc.dat_record.txt\<close>, where the writer
  has put it under \<^verbatim>\<open>cache/abc_record.txt\<close>.
\<close>

theorem split_entry_not_found:
  "disk (streamBody blobPath 314572800 (replicate 4800 (replicate 65536 c)) Map.empty) =
     [''cache/abc_part_0.dat'' \<mapsto> replicate 104857600 c,
      ''cache/abc_part_1.dat'' \<mapsto> replicate 104857600 c,
      ''cache/abc_part_2.dat'' \<mapsto> replicate 104857600 c,
      ''cache/abc_record.txt'' \<mapsto> ''Parts: 3'' @ newline @ ''TotalSize: 104857600'' @ newline]
   \<and> serveFromCache (disk (streamBody blobPath 314572800 reads Map.empty)) (getCacheFilePath blobPath)
     = ([], False)"
proof -
  let ?fs = "disk (streamBody blobPath 314572800 reads Map.empty)"
  have big: "100 * 1024 * 1024 < (314572800::int)" by simp
  have "?fs ''cache/abc.dat'' = Map.empty ''cache/abc.dat''"
    by (rule streamBody_split_other [OF _ _ big]) (simp_all add: blob_names)
  moreover have "?fs ''cache/abc.dat_record.txt'' = Map.empty ''cache/abc.dat_record.txt''"
    by (rule streamBody_split_other [OF _ _ big]) (simp_all add: blob_names)
  ultimately have "serveFromCache ?fs (getCacheFilePath blobPath) = ([], False)"
    by (simp add: serveFromCache_def blob_names)
  then show ?thesis using three_chunks_written by simp
qed

end
